theory Spec2Isabelle
  imports Complex_Main "HOL-Library.AList"
begin

chapter \<open>The model\<close>

section \<open>Exceptions as values\<close>

text \<open>
  The Python exceptions that the two scripts can raise in the code embedded below.
  A computation that may raise returns \<open>error + 'a\<close>, with \<open>Inl\<close> for the exception.
\<close>

datatype error = KeyError | ValueError | IndexError | TypeError | RuntimeError | ZeroDivisionError

text \<open>Python list indexing \<open>xs[i]\<close>: negative indices count from the end.\<close>

definition getitem :: "'a list \<Rightarrow> int \<Rightarrow> error + 'a" where
  "getitem xs i =
     (let n = int (length xs) in
      if 0 \<le> i \<and> i < n then Inr (xs ! nat i)
      else if - n \<le> i \<and> i < 0 then Inr (xs ! nat (n + i))
      else Inl IndexError)"

section \<open>talents.py: the data model\<close>

subsection \<open>Step: the closed enumeration of stat kinds\<close>

datatype Step = TALENT | ATTACK | DEFENSE | HEALTH | HEAL | CRITICAL | MANA

text \<open>The members of the enumeration, in declaration order (iteration over \<open>Step\<close>).\<close>

definition Step_members :: "Step list" where
  "Step_members = [TALENT, ATTACK, DEFENSE, HEALTH, HEAL, CRITICAL, MANA]"

text \<open>
  \<open>Step.from_text\<close>: the first member whose value is the text; the IndexError of an
  empty selection is turned into ValueError.
\<close>

definition Step_values :: "(string \<times> Step) list" where
  "Step_values =
     [(''talent'', TALENT), (''attack'', ATTACK), (''defense'', DEFENSE), (''health'', HEALTH),
      (''heal'', HEAL), (''critical'', CRITICAL), (''mana'', MANA)]"

definition from_text :: "string \<Rightarrow> error + Step" where
  "from_text text =
     (case filter (\<lambda>(v, s). v = text) Step_values of
        [] \<Rightarrow> Inl ValueError
      | (v, s) # _ \<Rightarrow> Inr s)"

subsection \<open>TalentCounter: a dict from Step to int\<close>

type_synonym TalentCounter = "Step \<rightharpoonup> int"

text \<open>\<open>TalentCounter.__init__\<close>: every member of \<open>Step\<close> is a key, with count 0.\<close>

definition TalentCounter_init :: TalentCounter where
  "TalentCounter_init = map_of (map (\<lambda>step. (step, 0)) Step_members)"

text \<open>\<open>self[k] += v\<close>: reads the key first, so a missing key raises KeyError.\<close>

definition iadd_item :: "TalentCounter \<Rightarrow> Step \<Rightarrow> int \<Rightarrow> error + TalentCounter" where
  "iadd_item self k v =
     (case self k of None \<Rightarrow> Inl KeyError | Some u \<Rightarrow> Inr (self(k \<mapsto> u + v)))"

text \<open>\<open>rhs.items()\<close>: the entries of a counter, in the order of the enumeration.\<close>

definition items :: "TalentCounter \<Rightarrow> (Step \<times> int) list" where
  "items rhs = List.map_filter (\<lambda>k. map_option (Pair k) (rhs k)) Step_members"

text \<open>The loop \<open>for k, v in rhs.items(): self[k] += v\<close>.\<close>

fun add_items :: "TalentCounter \<Rightarrow> (Step \<times> int) list \<Rightarrow> error + TalentCounter" where
  "add_items self [] = Inr self"
| "add_items self ((k, v) # kvs) =
     (case iadd_item self k v of Inl e \<Rightarrow> Inl e | Inr self' \<Rightarrow> add_items self' kvs)"

text \<open>
  The argument of \<open>TalentCounter.add\<close> is dynamically typed: a \<open>Step\<close>, a
  \<open>TalentCounter\<close>, or anything else (which raises TypeError).
\<close>

datatype add_arg = AStep Step | ACounter TalentCounter | AOther

fun TalentCounter_add :: "TalentCounter \<Rightarrow> add_arg \<Rightarrow> error + TalentCounter" where
  "TalentCounter_add self (AStep s) = iadd_item self s 1"
| "TalentCounter_add self (ACounter rhs) = add_items self (items rhs)"
| "TalentCounter_add self AOther = Inl TypeError"

subsection \<open>ClassTalents: an entity definition\<close>

record ClassTalents =
  name :: string
  count :: TalentCounter
  branches :: "TalentCounter list list"

text \<open>\<open>ClassTalents.__init__\<close>: a missing or empty name raises ValueError.\<close>

definition ClassTalents_init :: "string option \<Rightarrow> error + ClassTalents" where
  "ClassTalents_init nm =
     (case nm of
        None \<Rightarrow> Inl ValueError
      | Some n \<Rightarrow>
          if n = [] then Inl ValueError
          else Inr \<lparr>name = n, count = TalentCounter_init, branches = []\<rparr>)"

text \<open>The loop of \<open>count_path\<close> over \<open>zip(self.branches, path)\<close>.\<close>

fun count_path_loop :: "(TalentCounter list \<times> int) list \<Rightarrow> TalentCounter \<Rightarrow> error + TalentCounter" where
  "count_path_loop [] result = Inr result"
| "count_path_loop ((split, wh) # rest) result =
     (case getitem split wh of
        Inl e \<Rightarrow> Inl e
      | Inr b \<Rightarrow>
          (case TalentCounter_add result (ACounter b) of
             Inl e \<Rightarrow> Inl e
           | Inr result' \<Rightarrow> count_path_loop rest result'))"

definition count_path :: "ClassTalents \<Rightarrow> int list \<Rightarrow> error + TalentCounter" where
  "count_path self path =
     (if length path \<noteq> length (branches self) then Inl ValueError
      else
        (case TalentCounter_add TalentCounter_init (ACounter (count self)) of
           Inl e \<Rightarrow> Inl e
         | Inr result \<Rightarrow> count_path_loop (zip (branches self) path) result))"

subsection \<open>Building a class from its XML element\<close>

text \<open>
  An element of a parsed XML document (\<open>xml.etree.ElementTree.Element\<close>), as far as
  the code reads it: its tag, its attributes and its child elements. Parsing the file
  into this tree is the library's work and is outside this model.
\<close>

datatype xml = Element (tag: string) (attrib: "(string \<times> string) list") (children: "xml list")

text \<open>
  The loops of \<open>ClassTalents.from_xml\<close>, innermost first: the stats of one branch
  (an unknown tag raises ValueError), the branches of one split, and the children of
  the class element. A child whose tag is a stat is added to the base tally; one whose
  tag is \<open>split\<close> appends a branch choice; any other child is skipped.
\<close>

fun branch_counter :: "xml list \<Rightarrow> TalentCounter \<Rightarrow> error + TalentCounter" where
  "branch_counter [] b = Inr b"
| "branch_counter (s # ss) b =
     (case from_text (tag s) of
        Inl e \<Rightarrow> Inl e
      | Inr st \<Rightarrow>
          (case TalentCounter_add b (AStep st) of
             Inl e \<Rightarrow> Inl e
           | Inr b' \<Rightarrow> branch_counter ss b'))"

fun split_branches :: "xml list \<Rightarrow> TalentCounter list \<Rightarrow> error + TalentCounter list" where
  "split_branches [] split = Inr split"
| "split_branches (branch # rest) split =
     (case branch_counter (children branch) TalentCounter_init of
        Inl e \<Rightarrow> Inl e
      | Inr b \<Rightarrow> split_branches rest (split @ [b]))"

fun from_xml_steps :: "xml list \<Rightarrow> ClassTalents \<Rightarrow> error + ClassTalents" where
  "from_xml_steps [] talents = Inr talents"
| "from_xml_steps (step # rest) talents =
     (case from_text (tag step) of
        Inr st \<Rightarrow>
          (case TalentCounter_add (count talents) (AStep st) of
             Inl e \<Rightarrow> Inl e
           | Inr c \<Rightarrow> from_xml_steps rest (talents\<lparr>count := c\<rparr>))
      | Inl e \<Rightarrow>
          if e \<noteq> ValueError then Inl e
          else if tag step = ''split'' then
            (case split_branches (filter (\<lambda>b. tag b = ''branch'') (children step)) [] of
               Inl e' \<Rightarrow> Inl e'
             | Inr split \<Rightarrow> from_xml_steps rest (talents\<lparr>branches := branches talents @ [split]\<rparr>))
          else from_xml_steps rest talents)"

definition from_xml :: "xml \<Rightarrow> error + ClassTalents" where
  "from_xml x =
     (case ClassTalents_init (map_of (attrib x) ''name'') of
        Inl e \<Rightarrow> Inl e
      | Inr talents \<Rightarrow> from_xml_steps (children x) talents)"

subsection \<open>Data: the loaded classes\<close>

text \<open>
  \<open>Data.classes\<close> is a dict from class name to class, kept here as an association
  list with one entry per key. \<open>Data.read\<close> goes through the \<open>class\<close> children of
  a document's root and stores each class under its name, a later one replacing an
  earlier one of the same name. \<open>Data.from_files\<close> reads every document (an exception
  is passed on) and raises RuntimeError when no class was read.
\<close>

type_synonym Data = "(string \<times> ClassTalents) list"

fun read_classes :: "xml list \<Rightarrow> Data \<Rightarrow> error + Data" where
  "read_classes [] classes = Inr classes"
| "read_classes (xml_cls # rest) classes =
     (case from_xml xml_cls of
        Inl e \<Rightarrow> Inl e
      | Inr c \<Rightarrow> read_classes rest (AList.update (name c) c classes))"

definition read :: "Data \<Rightarrow> xml \<Rightarrow> error + Data" where
  "read classes tree = read_classes (filter (\<lambda>x. tag x = ''class'') (children tree)) classes"

fun read_files :: "xml list \<Rightarrow> Data \<Rightarrow> error + Data" where
  "read_files [] classes = Inr classes"
| "read_files (tree # trees) classes =
     (case read classes tree of
        Inl e \<Rightarrow> Inl e
      | Inr classes' \<Rightarrow> read_files trees classes')"

definition from_files :: "xml list \<Rightarrow> error + Data" where
  "from_files trees =
     (case read_files trees [] of
        Inl e \<Rightarrow> Inl e
      | Inr classes \<Rightarrow> if classes = [] then Inl RuntimeError else Inr classes)"

section \<open>talents.py: the path evaluator\<close>

subsection \<open>Goals\<close>

record Goal =
  cls :: ClassTalents
  priorities :: "Step list"

definition step_map :: "char \<rightharpoonup> Step" where
  "step_map = map_of
     [(CHR ''a'', ATTACK), (CHR ''c'', CRITICAL), (CHR ''d'', DEFENSE), (CHR ''h'', HEALTH),
      (CHR ''l'', HEAL), (CHR ''m'', MANA), (CHR ''t'', TALENT)]"

text \<open>\<open>[step_map[p] for p in string]\<close>: the first unknown character raises KeyError.\<close>

fun parse_priorities :: "string \<Rightarrow> error + Step list" where
  "parse_priorities [] = Inr []"
| "parse_priorities (p # ps) =
     (case step_map p of
        None \<Rightarrow> Inl KeyError
      | Some s \<Rightarrow> (case parse_priorities ps of Inl e \<Rightarrow> Inl e | Inr ss \<Rightarrow> Inr (s # ss)))"

text \<open>\<open>islice(xs, 0, None, 2)\<close>: every second element, from the first.\<close>

fun islice2 :: "'a list \<Rightarrow> 'a list" where
  "islice2 [] = []"
| "islice2 [x] = [x]"
| "islice2 (x # y # xs) = x # islice2 xs"

text \<open>
  The list comprehension that builds the goals: for each pair of a name and a priority
  string, the class is looked up first (KeyError when absent), then the string is parsed.
\<close>

fun make_goals :: "Data \<Rightarrow> (string \<times> string) list \<Rightarrow> error + Goal list" where
  "make_goals classes [] = Inr []"
| "make_goals classes ((n, p) # rest) =
     (case map_of classes n of
        None \<Rightarrow> Inl KeyError
      | Some c \<Rightarrow>
          (case parse_priorities p of
             Inl e \<Rightarrow> Inl e
           | Inr ps \<Rightarrow>
               (case make_goals classes rest of
                  Inl e \<Rightarrow> Inl e
                | Inr gs \<Rightarrow> Inr (\<lparr>cls = c, priorities = ps\<rparr> # gs))))"

subsection \<open>Candidate paths and their tallies\<close>

text \<open>\<open>list(product(xs, repeat=n))\<close>, in the order itertools yields.\<close>

definition product_repeat :: "'a list \<Rightarrow> nat \<Rightarrow> 'a list list" where
  "product_repeat xs n = product_lists (replicate n xs)"

type_synonym Results = "int list \<rightharpoonup> (string \<rightharpoonup> TalentCounter)"

text \<open>\<open>{g.cls.name: g.cls.count_path(path) for g in goals}\<close>\<close>

fun path_counts :: "Goal list \<Rightarrow> int list \<Rightarrow> (string \<rightharpoonup> TalentCounter) \<Rightarrow> error + (string \<rightharpoonup> TalentCounter)" where
  "path_counts [] path m = Inr m"
| "path_counts (g # gs) path m =
     (case count_path (cls g) path of
        Inl e \<Rightarrow> Inl e
      | Inr t \<Rightarrow> path_counts gs path (m(name (cls g) \<mapsto> t)))"

text \<open>\<open>{path: {...} for path in best_paths}\<close>\<close>

fun all_counts :: "Goal list \<Rightarrow> int list list \<Rightarrow> Results \<Rightarrow> error + Results" where
  "all_counts goals [] results = Inr results"
| "all_counts goals (path # paths) results =
     (case path_counts goals path Map.empty of
        Inl e \<Rightarrow> Inl e
      | Inr m \<Rightarrow> all_counts goals paths (results(path \<mapsto> m)))"

text \<open>\<open>results[path][name][prio]\<close>: three dict lookups, each of which may raise KeyError.\<close>

definition stat_value :: "Results \<Rightarrow> int list \<Rightarrow> string \<Rightarrow> Step \<Rightarrow> error + int" where
  "stat_value results path nm prio =
     (case results path of
        None \<Rightarrow> Inl KeyError
      | Some per_class \<Rightarrow>
          (case per_class nm of
             None \<Rightarrow> Inl KeyError
           | Some t \<Rightarrow> (case t prio of None \<Rightarrow> Inl KeyError | Some v \<Rightarrow> Inr v)))"

subsection \<open>The elimination rounds\<close>

text \<open>
  The innermost loop, over the surviving paths, for one goal and one priority; it is
  entered with \<open>new_paths = []\<close> and \<open>current_max = 0\<close>.
\<close>

fun scan_paths :: "Results \<Rightarrow> string \<Rightarrow> Step \<Rightarrow> int list list \<Rightarrow> int list list \<Rightarrow> int \<Rightarrow> error + int list list" where
  "scan_paths results nm prio [] new_paths current_max = Inr new_paths"
| "scan_paths results nm prio (path # rest) new_paths current_max =
     (case stat_value results path nm prio of
        Inl e \<Rightarrow> Inl e
      | Inr val \<Rightarrow>
          if val > current_max then scan_paths results nm prio rest [path] val
          else if val = current_max then scan_paths results nm prio rest (new_paths @ [path]) current_max
          else scan_paths results nm prio rest new_paths current_max)"

text \<open>
  The loop over the goals at one priority index. \<open>g.priorities[idx_priority]\<close> raises
  IndexError exactly when the index is not below the length (the index is never
  negative); the handler skips the goal.
\<close>

fun goals_round :: "Results \<Rightarrow> nat \<Rightarrow> Goal list \<Rightarrow> int list list \<Rightarrow> error + int list list" where
  "goals_round results idx [] best_paths = Inr best_paths"
| "goals_round results idx (g # gs) best_paths =
     (if length (priorities g) \<le> idx then goals_round results idx gs best_paths
      else
        (case scan_paths results (name (cls g)) (priorities g ! idx) best_paths [] 0 of
           Inl e \<Rightarrow> Inl e
         | Inr new_paths \<Rightarrow> goals_round results idx gs new_paths))"

text \<open>The outer loop, over the priority indices.\<close>

fun priority_rounds :: "Results \<Rightarrow> Goal list \<Rightarrow> nat list \<Rightarrow> int list list \<Rightarrow> error + int list list" where
  "priority_rounds results goals [] best_paths = Inr best_paths"
| "priority_rounds results goals (idx # idxs) best_paths =
     (case goals_round results idx goals best_paths of
        Inl e \<Rightarrow> Inl e
      | Inr best_paths' \<Rightarrow> priority_rounds results goals idxs best_paths')"

text \<open>
  The whole filter: \<open>max\<close> of an empty sequence raises ValueError, so an empty goal list
  fails; otherwise the rounds run over \<open>range(max(len(g.priorities) for g in goals))\<close>.
\<close>

definition eliminate :: "Results \<Rightarrow> Goal list \<Rightarrow> int list list \<Rightarrow> error + int list list" where
  "eliminate results goals best_paths =
     (if goals = [] then Inl ValueError
      else priority_rounds results goals
             [0 ..< Max (set (map (\<lambda>g. length (priorities g)) goals))] best_paths)"

subsection \<open>The report and the main function\<close>

text \<open>
  What the final loop prints: each surviving path with, for each goal, the class name
  and the tally stored for it.
\<close>

fun report_goals :: "(string \<rightharpoonup> TalentCounter) \<Rightarrow> Goal list \<Rightarrow> error + (string \<times> TalentCounter) list" where
  "report_goals per_class [] = Inr []"
| "report_goals per_class (g # gs) =
     (case per_class (name (cls g)) of
        None \<Rightarrow> Inl KeyError
      | Some t \<Rightarrow>
          (case report_goals per_class gs of
             Inl e \<Rightarrow> Inl e
           | Inr rows \<Rightarrow> Inr ((name (cls g), t) # rows)))"

fun report :: "Results \<Rightarrow> Goal list \<Rightarrow> int list list \<Rightarrow> error + (int list \<times> (string \<times> TalentCounter) list) list" where
  "report results goals [] = Inr []"
| "report results goals (path # paths) =
     (case results path of
        None \<Rightarrow> Inl KeyError
      | Some per_class \<Rightarrow>
          (case report_goals per_class goals of
             Inl e \<Rightarrow> Inl e
           | Inr rows \<Rightarrow>
               (case report results goals paths of
                  Inl e \<Rightarrow> Inl e
                | Inr out \<Rightarrow> Inr ((path, rows) # out))))"

text \<open>
  \<open>main\<close>, after the command line is parsed: \<open>files\<close> are the parsed documents of
  the database files (\<open>classes.xml\<close> first), \<open>goal\<close> is the list of positional
  arguments.
\<close>

definition main :: "xml list \<Rightarrow> string list \<Rightarrow> error + (int list \<times> (string \<times> TalentCounter) list) list" where
  "main files goal =
     (case from_files files of
        Inl e \<Rightarrow> Inl e
      | Inr classes \<Rightarrow>
          (case make_goals classes (zip (islice2 goal) (islice2 (drop 1 goal))) of
             Inl e \<Rightarrow> Inl e
           | Inr goals \<Rightarrow>
               (case all_counts goals (product_repeat [0, 1] 7) Map.empty of
                  Inl e \<Rightarrow> Inl e
                | Inr results \<Rightarrow>
                    (case eliminate results goals (product_repeat [0, 1] 7) of
                       Inl e \<Rightarrow> Inl e
                     | Inr best_paths \<Rightarrow> report results goals best_paths))))"

section \<open>training.py: the leveling simulator\<close>







section \<open>Notions used in the statements\<close>

subsection \<open>Stat tallies\<close>

text \<open>
  A counter built by \<open>TalentCounter.__init__\<close> holds every stat kind, and every count
  starts at 0 and is only ever increased: these are the two invariants of a Stat Tally.
\<close>

definition populated :: "TalentCounter \<Rightarrow> bool" where
  "populated t = list_all (\<lambda>k. t k \<noteq> None) Step_members"

definition nonneg :: "TalentCounter \<Rightarrow> bool" where
  "nonneg t = list_all (\<lambda>k. case t k of None \<Rightarrow> True | Some v \<Rightarrow> 0 \<le> v) Step_members"

definition tally :: "TalentCounter \<Rightarrow> bool" where
  "tally t = (populated t \<and> nonneg t)"

text \<open>The count a tally holds for a kind (\<open>t[k]\<close> where the key is present).\<close>

definition cnt :: "TalentCounter \<Rightarrow> Step \<Rightarrow> int" where
  "cnt t k = (case t k of None \<Rightarrow> 0 | Some v \<Rightarrow> v)"

subsection \<open>Entities and paths\<close>

text \<open>
  A branch choice holds exactly two alternatives; a path over binary branches selects 0
  or 1 at each position. An entity is well formed when its base and all its
  alternatives hold every stat kind and its branches are binary, and valid when,
  moreover, no count is negative. \<open>binary_branches c n\<close> is the shape alone: \<open>n\<close>
  branches of two alternatives each.
\<close>

definition binary_split :: "TalentCounter list \<Rightarrow> bool" where
  "binary_split split = (length split = 2 \<and> list_all populated split)"

definition well_formed :: "ClassTalents \<Rightarrow> bool" where
  "well_formed c = (populated (count c) \<and> list_all binary_split (branches c))"

definition binary_path :: "int list \<Rightarrow> bool" where
  "binary_path path = list_all (\<lambda>w. w = 0 \<or> w = 1) path"

definition valid_class :: "ClassTalents \<Rightarrow> bool" where
  "valid_class c = (well_formed c \<and> nonneg (count c) \<and> list_all (list_all nonneg) (branches c))"

definition tallies :: "ClassTalents \<Rightarrow> bool" where
  "tallies c = (tally (count c) \<and> list_all (list_all tally) (branches c))"

definition binary_branches :: "ClassTalents \<Rightarrow> nat \<Rightarrow> bool" where
  "binary_branches c n = (length (branches c) = n \<and> list_all (\<lambda>split. length split = 2) (branches c))"

definition searchable :: "Goal list \<Rightarrow> bool" where
  "searchable goals = list_all (\<lambda>g. valid_class (cls g) \<and> length (branches (cls g)) = 7) goals"

text \<open>
  The class table that \<open>from_files\<close> builds: every class is stored under its own name
  and carries tallies only.
\<close>

definition loaded :: "Data \<Rightarrow> bool" where
  "loaded classes = (\<forall>n c. map_of classes n = Some c \<longrightarrow> name c = n \<and> tallies c)"

text \<open>The tally a path resolves to, where \<open>count_path\<close> returns one.\<close>

definition resolved :: "ClassTalents \<Rightarrow> int list \<Rightarrow> TalentCounter" where
  "resolved c path = (case count_path c path of Inl e \<Rightarrow> Map.empty | Inr t \<Rightarrow> t)"

subsection \<open>The state of the filter\<close>

text \<open>
  \<open>value_of\<close> is the stat that the filter reads for a path; a list of paths is
  \<open>uniform\<close> for a class and a stat when all its paths read the same non-negative
  value, and \<open>settled\<close> at a priority index when it is uniform for every goal that has
  a priority at that index. A table of tallies is \<open>readable\<close> on a set of paths when
  every stat of every goal's class can be read there and is not negative.
\<close>

definition value_of :: "Results \<Rightarrow> string \<Rightarrow> Step \<Rightarrow> int list \<Rightarrow> int" where
  "value_of results nm prio path = (case stat_value results path nm prio of Inl e \<Rightarrow> 0 | Inr v \<Rightarrow> v)"

definition uniform :: "Results \<Rightarrow> string \<Rightarrow> Step \<Rightarrow> int list list \<Rightarrow> bool" where
  "uniform results nm prio ps = (\<exists>m\<ge>0. \<forall>p\<in>set ps. stat_value results p nm prio = Inr m)"

definition settled :: "Results \<Rightarrow> nat \<Rightarrow> Goal list \<Rightarrow> int list list \<Rightarrow> bool" where
  "settled results idx gs ps =
     (\<forall>g\<in>set gs. idx < length (priorities g) \<longrightarrow> uniform results (name (cls g)) (priorities g ! idx) ps)"

definition readable :: "Results \<Rightarrow> Goal list \<Rightarrow> int list set \<Rightarrow> bool" where
  "readable results goals U =
     (\<forall>p\<in>U. \<forall>g\<in>set goals. \<forall>k. \<exists>v\<ge>0. stat_value results p (name (cls g)) k = Inr v)"

subsection \<open>The measure of a run\<close>


section \<open>Concrete inputs\<close>

text \<open>
  \<open>duo\<close>: base \<open>{attack: 1}\<close> and two branches, \<open>[{attack: 2}, {mana: 1}]\<close> and
  \<open>[{health: 1}, {heal: 1}]\<close>. \<open>solo\<close>: base \<open>{attack: 1}\<close> and one branch
  \<open>[{attack: 2}, {}]\<close>. \<open>septet\<close>: a class with seven binary branches. The XML
  elements are the documents that yield \<open>solo\<close> and \<open>septet\<close>; \<open>library\<close> is a
  database file that holds both.
\<close>

definition duo :: ClassTalents where
  "duo = \<lparr>name = ''duo'',
          count = TalentCounter_init(ATTACK \<mapsto> 1),
          branches = [[TalentCounter_init(ATTACK \<mapsto> 2), TalentCounter_init(MANA \<mapsto> 1)],
                      [TalentCounter_init(HEALTH \<mapsto> 1), TalentCounter_init(HEAL \<mapsto> 1)]]\<rparr>"

definition solo :: ClassTalents where
  "solo = \<lparr>name = ''solo'', count = TalentCounter_init(ATTACK \<mapsto> 1),
           branches = [[TalentCounter_init(ATTACK \<mapsto> 2), TalentCounter_init]]\<rparr>"

definition solo_xml :: xml where
  "solo_xml =
     Element ''class'' [(''name'', ''solo'')]
       [Element ''attack'' [] [],
        Element ''split'' []
          [Element ''branch'' [] [Element ''attack'' [] [], Element ''attack'' [] []],
           Element ''branch'' [] []]]"

definition septet :: ClassTalents where
  "septet = \<lparr>name = ''septet'',
             count = TalentCounter_init(ATTACK \<mapsto> 1, HEALTH \<mapsto> 2),
             branches =
               [[TalentCounter_init(ATTACK \<mapsto> 1), TalentCounter_init(DEFENSE \<mapsto> 1)],
                [TalentCounter_init(HEALTH \<mapsto> 1), TalentCounter_init(ATTACK \<mapsto> 1)],
                [TalentCounter_init(MANA \<mapsto> 1), TalentCounter_init(HEAL \<mapsto> 1)],
                [TalentCounter_init(ATTACK \<mapsto> 1), TalentCounter_init(CRITICAL \<mapsto> 1)],
                [TalentCounter_init(DEFENSE \<mapsto> 1), TalentCounter_init(HEALTH \<mapsto> 1)],
                [TalentCounter_init(ATTACK \<mapsto> 1), TalentCounter_init(TALENT \<mapsto> 1)],
                [TalentCounter_init(HEAL \<mapsto> 1), TalentCounter_init(MANA \<mapsto> 1)]]\<rparr>"

definition choice :: "string \<Rightarrow> string \<Rightarrow> xml" where
  "choice l r =
     Element ''split'' []
       [Element ''branch'' [] [Element l [] []], Element ''branch'' [] [Element r [] []]]"

definition septet_xml :: xml where
  "septet_xml =
     Element ''class'' [(''name'', ''septet'')]
       [Element ''attack'' [] [], Element ''health'' [] [],
        choice ''attack'' ''defense'', choice ''health'' ''attack'',
        Element ''health'' [] [],
        choice ''mana'' ''heal'', choice ''attack'' ''critical'', choice ''defense'' ''health'',
        choice ''attack'' ''talent'', choice ''heal'' ''mana'']"

definition library :: xml where
  "library = Element ''classes'' [] [septet_xml, Element ''note'' [] [], solo_xml]"

chapter \<open>Properties\<close>

section \<open>Stat tallies\<close>

lemma Step_members_UNIV: "set Step_members = UNIV"
proof -
  have "k \<in> set Step_members" for k
    by (cases k) (simp_all add: Step_members_def)
  then show ?thesis by auto
qed

lemma distinct_Step_members: "distinct Step_members"
  by (simp add: Step_members_def)

lemma populated_iff: "populated t \<longleftrightarrow> (\<forall>k. \<exists>v. t k = Some v)"
  by (simp add: populated_def list_all_iff Step_members_UNIV)

lemma nonneg_iff: "nonneg t \<longleftrightarrow> (\<forall>k v. t k = Some v \<longrightarrow> 0 \<le> v)"
  by (auto simp: nonneg_def list_all_iff Step_members_UNIV split: option.splits)

lemma populated_cnt: "populated t \<Longrightarrow> t k = Some (cnt t k)"
  by (auto simp: populated_iff cnt_def split: option.splits)

lemma TalentCounter_init_apply: "TalentCounter_init k = Some 0"
  by (cases k) (simp_all add: TalentCounter_init_def Step_members_def)

lemma populated_init: "populated TalentCounter_init"
  by (simp add: populated_iff TalentCounter_init_apply)

lemma populated_upd: "populated t \<Longrightarrow> populated (t(k \<mapsto> v))"
  by (simp add: populated_iff)

lemma populated_sum: "populated (\<lambda>k. Some (f k))"
  by (simp add: populated_iff)

lemma cnt_sum: "cnt (\<lambda>k. Some (f k)) k = f k"
  by (simp add: cnt_def)

lemma nonneg_cnt: "nonneg t \<Longrightarrow> 0 \<le> cnt t k"
  by (auto simp: nonneg_iff cnt_def split: option.splits)

lemma tally_init: "tally TalentCounter_init"
  by (simp add: tally_def populated_init nonneg_iff TalentCounter_init_apply)

subsection \<open>Adding to a counter\<close>

lemma iadd_item_Some: "self k = Some u \<Longrightarrow> iadd_item self k v = Inr (self(k \<mapsto> u + v))"
  by (simp add: iadd_item_def)

lemma iadd_item_dom: "iadd_item self k v = Inr r \<Longrightarrow> dom r = dom self"
  by (auto simp: iadd_item_def split: option.splits if_splits)

lemma add_items_dom: "add_items self kvs = Inr r \<Longrightarrow> dom r = dom self"
proof (induction kvs arbitrary: self)
  case Nil
  then show ?case by simp
next
  case (Cons kv kvs)
  obtain k v where kv: "kv = (k, v)" by (cases kv)
  from Cons.prems kv obtain self' where
    s1: "iadd_item self k v = Inr self'" and s2: "add_items self' kvs = Inr r"
    by (auto split: sum.splits)
  from Cons.IH [OF s2] iadd_item_dom [OF s1] show ?case by simp
qed

text \<open>Merging never inserts a key: the keys of the result are those of the receiver.\<close>

lemma TalentCounter_add_dom: "TalentCounter_add self rhs = Inr r \<Longrightarrow> dom r = dom self"
  by (cases rhs) (simp_all add: iadd_item_dom add_items_dom)

lemma add_items_populated:
  assumes "populated self" and "distinct (map fst kvs)"
  shows "add_items self kvs =
           Inr (\<lambda>k. Some (cnt self k + (case map_of kvs k of None \<Rightarrow> 0 | Some v \<Rightarrow> v)))"
  using assms
proof (induction kvs arbitrary: self)
  case Nil
  have "self k = Some (cnt self k + 0)" for k
    using Nil.prems(1) by (auto simp: populated_iff cnt_def split: option.splits)
  then have "self = (\<lambda>k. Some (cnt self k + 0))" by (rule ext)
  then show ?case by simp
next
  case (Cons kv kvs)
  obtain k v where kv: "kv = (k, v)" by (cases kv)
  let ?self' = "self(k \<mapsto> cnt self k + v)"
  have step: "iadd_item self k v = Inr ?self'"
    using Cons.prems(1) by (simp add: iadd_item_Some populated_cnt)
  have pop': "populated ?self'"
    using Cons.prems(1) by (simp add: populated_iff)
  have dist: "distinct (map fst kvs)" and notin: "k \<notin> fst ` set kvs"
    using Cons.prems(2) kv by auto
  have fresh: "map_of kvs k = None"
    using notin by (simp add: map_of_eq_None_iff)
  have "add_items self (kv # kvs) = add_items ?self' kvs"
    using step kv by simp
  also have "\<dots> = Inr (\<lambda>j. Some (cnt ?self' j + (case map_of kvs j of None \<Rightarrow> 0 | Some w \<Rightarrow> w)))"
    by (rule Cons.IH [OF pop' dist])
  also have "(\<lambda>j. Some (cnt ?self' j + (case map_of kvs j of None \<Rightarrow> 0 | Some w \<Rightarrow> w)))
           = (\<lambda>j. Some (cnt self j + (case map_of (kv # kvs) j of None \<Rightarrow> 0 | Some w \<Rightarrow> w)))"
    using fresh kv by (auto simp: cnt_def fun_eq_iff)
  finally show ?case .
qed

lemma items_populated: "populated rhs \<Longrightarrow> items rhs = map (\<lambda>k. (k, cnt rhs k)) Step_members"
  by (simp add: items_def Step_members_def populated_cnt)

lemma map_of_items_populated:
  "map_of (map (\<lambda>k. (k, cnt rhs k)) Step_members) k = Some (cnt rhs k)"
  by (cases k) (simp_all add: Step_members_def)

lemma add_counter_populated:
  assumes "populated self" and "populated rhs"
  shows "TalentCounter_add self (ACounter rhs) = Inr (\<lambda>k. Some (cnt self k + cnt rhs k))"
proof -
  have d: "distinct (map fst (map (\<lambda>k. (k, cnt rhs k)) Step_members))"
    by (simp add: Step_members_def)
  show ?thesis
    using add_items_populated [OF assms(1) d]
    by (simp add: items_populated [OF assms(2)] map_of_items_populated)
qed

lemma add_step_tally:
  assumes "TalentCounter_add t (AStep s) = Inr t'" and "tally t"
  shows "tally t'"
proof -
  from assms(2) obtain u where u: "t s = Some u" "0 \<le> u"
    unfolding tally_def populated_iff nonneg_iff by blast
  with assms(1) have t': "t' = t(s \<mapsto> u + 1)" by (simp add: iadd_item_def)
  show ?thesis
    unfolding t' tally_def populated_iff nonneg_iff
    using assms(2) u(2) unfolding tally_def populated_iff nonneg_iff by auto
qed

subsection \<open>Merge of two tallies\<close>

text \<open>
  C5. For two Stat Tallies \<open>t1\<close> and \<open>t2\<close> (counters holding every stat kind), merging
  \<open>t2\<close> into \<open>t1\<close> succeeds and gives, for every stat kind, the sum of the two counts;
  merging in the other order gives the same count for every kind; and the keys of the
  merged tally are those of \<open>t1\<close>, which are exactly the members of the enumeration.
\<close>

theorem merge_sum_commutes:
  assumes "populated t1" and "populated t2"
  shows "\<exists>r r'. TalentCounter_add t1 (ACounter t2) = Inr r
           \<and> TalentCounter_add t2 (ACounter t1) = Inr r'
           \<and> (\<forall>k. r k = Some (cnt t1 k + cnt t2 k))
           \<and> (\<forall>k. r k = r' k)
           \<and> dom r = dom t1 \<and> dom r = set Step_members"
proof -
  let ?r = "\<lambda>k. Some (cnt t1 k + cnt t2 k)"
  let ?r' = "\<lambda>k. Some (cnt t2 k + cnt t1 k)"
  have a: "TalentCounter_add t1 (ACounter t2) = Inr ?r"
    by (rule add_counter_populated [OF assms])
  have b: "TalentCounter_add t2 (ACounter t1) = Inr ?r'"
    by (rule add_counter_populated [OF assms(2) assms(1)])
  have c: "\<forall>k. ?r k = ?r' k" by (simp add: add.commute)
  have d: "dom ?r = dom t1" by (rule TalentCounter_add_dom [OF a])
  have e: "dom ?r = set Step_members" by (auto simp: Step_members_UNIV)
  from a b c d e show ?thesis by blast
qed

theorem merge_sum_commutes_witness:
  "populated (TalentCounter_init(ATTACK \<mapsto> 2))
   \<and> populated (TalentCounter_init(ATTACK \<mapsto> 1, MANA \<mapsto> 3))
   \<and> (\<exists>r r'. TalentCounter_add (TalentCounter_init(ATTACK \<mapsto> 2))
                 (ACounter (TalentCounter_init(ATTACK \<mapsto> 1, MANA \<mapsto> 3))) = Inr r
           \<and> TalentCounter_add (TalentCounter_init(ATTACK \<mapsto> 1, MANA \<mapsto> 3))
                 (ACounter (TalentCounter_init(ATTACK \<mapsto> 2))) = Inr r'
           \<and> r ATTACK = Some 3 \<and> r MANA = Some 3 \<and> r HEAL = Some 0 \<and> r' ATTACK = Some 3)"
proof -
  let ?t1 = "TalentCounter_init(ATTACK \<mapsto> 2)"
  let ?t2 = "TalentCounter_init(ATTACK \<mapsto> 1, MANA \<mapsto> 3)"
  have h1: "populated ?t1"
    by (simp add: populated_def Step_members_def TalentCounter_init_apply)
  have h2: "populated ?t2"
    by (simp add: populated_def Step_members_def TalentCounter_init_apply)
  have v: "cnt ?t1 ATTACK + cnt ?t2 ATTACK = 3" "cnt ?t1 MANA + cnt ?t2 MANA = 3"
    "cnt ?t1 HEAL + cnt ?t2 HEAL = 0"
    by (simp_all add: cnt_def TalentCounter_init_apply)
  from merge_sum_commutes [OF h1 h2] obtain r r' where
    r: "TalentCounter_add ?t1 (ACounter ?t2) = Inr r"
       "TalentCounter_add ?t2 (ACounter ?t1) = Inr r'"
       "\<forall>k. r k = Some (cnt ?t1 k + cnt ?t2 k)" "\<forall>k. r k = r' k"
    by blast
  have "r ATTACK = Some 3" "r MANA = Some 3" "r HEAL = Some 0" "r' ATTACK = Some 3"
    using r(3,4) v by (metis)+
  with h1 h2 r(1,2) show ?thesis by blast
qed

section \<open>Resolving a path\<close>

lemma getitem_binary:
  assumes "length split = 2" and "w = 0 \<or> w = 1"
  shows "getitem split w = Inr (split ! nat w)"
  using assms by (auto simp: getitem_def)

lemma count_path_loop_sum:
  assumes "populated result" and "length bs = length path"
    and "list_all binary_split bs" and "binary_path path"
  shows "count_path_loop (zip bs path) result =
           Inr (\<lambda>k. Some (cnt result k + (\<Sum>(split, w)\<leftarrow>zip bs path. cnt (split ! nat w) k)))"
  using assms
proof (induction bs arbitrary: path result)
  case Nil
  have "result k = Some (cnt result k)" for k
    using Nil.prems(1) by (rule populated_cnt)
  then have "result = (\<lambda>k. Some (cnt result k))" by (intro ext)
  then show ?case by simp
next
  case (Cons split bs)
  from Cons.prems(2) obtain w ws where path: "path = w # ws" and len: "length bs = length ws"
    by (cases path) auto
  have rest: "list_all binary_split bs"
    using Cons.prems(3) by simp
  have sp: "length split = 2" "list_all populated split"
    using Cons.prems(3) by (simp_all add: binary_split_def)
  have w: "w = 0 \<or> w = 1" and ws: "binary_path ws"
    using Cons.prems(4) path by (simp_all add: binary_path_def)
  have g: "getitem split w = Inr (split ! nat w)"
    by (rule getitem_binary [OF sp(1) w])
  have "split ! nat w \<in> set split"
    using sp(1) w by (auto intro: nth_mem)
  then have pb: "populated (split ! nat w)"
    using sp(2) by (simp add: list_all_iff)
  let ?result' = "\<lambda>k. Some (cnt result k + cnt (split ! nat w) k)"
  have a: "TalentCounter_add result (ACounter (split ! nat w)) = Inr ?result'"
    by (rule add_counter_populated [OF Cons.prems(1) pb])
  have "count_path_loop (zip (split # bs) path) result = count_path_loop (zip bs ws) ?result'"
    using path g a by simp
  also have "\<dots> = Inr (\<lambda>k. Some (cnt ?result' k + (\<Sum>(s, v)\<leftarrow>zip bs ws. cnt (s ! nat v) k)))"
    by (rule Cons.IH [OF populated_sum len rest ws])
  finally show ?case
    using path by (simp add: cnt_sum add.assoc)
qed

lemma sum_list_zip_nth:
  assumes "length xs = length ys"
  shows "(\<Sum>(x, y)\<leftarrow>zip xs ys. f x y) = (\<Sum>i<length ys. f (xs ! i) (ys ! i))"
proof -
  have "(\<Sum>(x, y)\<leftarrow>zip xs ys. f x y) = (\<Sum>i = 0..<length (zip xs ys). (case zip xs ys ! i of (x, y) \<Rightarrow> f x y))"
    by (simp add: sum_list_sum_nth)
  also have "\<dots> = (\<Sum>i<length ys. f (xs ! i) (ys ! i))"
    using assms by (simp add: atLeast0LessThan)
  finally show ?thesis .
qed

lemma count_path_resolved:
  assumes "well_formed c" and "length path = length (branches c)" and "binary_path path"
  shows "count_path c path =
           Inr (\<lambda>k. Some (cnt (count c) k + (\<Sum>i<length path. cnt (branches c ! i ! nat (path ! i)) k)))"
proof -
  let ?base = "\<lambda>k. Some (cnt TalentCounter_init k + cnt (count c) k)"
  have pc: "populated (count c)" and bs: "list_all binary_split (branches c)"
    using assms(1) by (simp_all add: well_formed_def)
  have a: "TalentCounter_add TalentCounter_init (ACounter (count c)) = Inr ?base"
    by (rule add_counter_populated [OF populated_init pc])
  have z: "cnt TalentCounter_init k = 0" for k
    by (simp add: cnt_def TalentCounter_init_apply)
  have "count_path c path = count_path_loop (zip (branches c) path) ?base"
    using assms(2) a by (simp add: count_path_def)
  also have "\<dots> = Inr (\<lambda>k. Some (cnt ?base k + (\<Sum>(split, w)\<leftarrow>zip (branches c) path. cnt (split ! nat w) k)))"
    by (rule count_path_loop_sum [OF populated_sum assms(2) [symmetric] bs assms(3)])
  finally show ?thesis
    using assms(2) by (simp add: cnt_sum z sum_list_zip_nth)
qed

lemma well_formed_duo: "well_formed duo"
  by (simp add: well_formed_def duo_def binary_split_def populated_upd populated_init)

text \<open>
  C6. For an entity whose base and alternatives are Stat Tallies and whose branches are
  binary, and a path with one selector (0 or 1) per branch, resolving the path returns
  a tally (the function has one value: it is deterministic) that holds, for every stat
  kind, the base count plus the sum over the branch positions of the count of the
  alternative selected there.
\<close>

theorem count_path_base_plus_selected:
  assumes "well_formed c" and "length path = length (branches c)" and "binary_path path"
  shows "\<exists>r. count_path c path = Inr r
           \<and> (\<forall>k. r k = Some (cnt (count c) k
                  + (\<Sum>i<length (branches c). cnt (branches c ! i ! nat (path ! i)) k)))"
  using count_path_resolved [OF assms] assms(2) by simp

theorem count_path_base_plus_selected_witness:
  "well_formed duo \<and> length [0, 1 :: int] = length (branches duo) \<and> binary_path [0, 1]
   \<and> (\<exists>r. count_path duo [0, 1] = Inr r \<and> r ATTACK = Some 3 \<and> r HEAL = Some 1
            \<and> r HEALTH = Some 0 \<and> r MANA = Some 0)"
proof -
  have h2: "length [0, 1 :: int] = length (branches duo)" by (simp add: duo_def)
  have h3: "binary_path [0, 1]" by (simp add: binary_path_def)
  have two: "{..<2::nat} = {0, 1}" by auto
  from count_path_base_plus_selected [OF well_formed_duo h2 h3] obtain r where
    r: "count_path duo [0, 1] = Inr r"
       "\<forall>k. r k = Some (cnt (count duo) k
              + (\<Sum>i<length (branches duo). cnt (branches duo ! i ! nat ([0, 1] ! i)) k))"
    by blast
  have "r ATTACK = Some 3" "r HEAL = Some 1" "r HEALTH = Some 0" "r MANA = Some 0"
    using r(2) by (simp_all add: duo_def two cnt_def TalentCounter_init_apply)
  with well_formed_duo h2 h3 r(1) show ?thesis by blast
qed

text \<open>
  C2, as the specification states it, fails: \<open>count_path\<close> compares the length of the
  path with the number of branches before anything else and raises ValueError when
  they differ. The entity \<open>duo\<close> has two branches; a path of length 7 is rejected, no
  prefix of it is applied.
\<close>

theorem count_path_short_entity_counterexample:
  "count_path duo [0, 1, 0, 0, 0, 0, 0] = Inl ValueError"
  by (simp add: count_path_def duo_def)

text \<open>
  C2, amended. For every entity whose number of branches is smaller than the length of
  the path, resolving the path raises ValueError: no tally is produced and no position
  of the path is applied.
\<close>

theorem count_path_length_guard:
  assumes "length (branches c) < length path"
  shows "count_path c path = Inl ValueError"
  using assms by (simp add: count_path_def)

theorem count_path_length_guard_witness:
  "length (branches solo) < length [0, 1 :: int] \<and> count_path solo [0, 1] = Inl ValueError"
proof -
  have h: "length (branches solo) < length [0, 1 :: int]" by (simp add: solo_def)
  from h count_path_length_guard [OF h] show ?thesis by simp
qed

lemma binary_path_iff: "binary_path p \<longleftrightarrow> set p \<subseteq> set [0, 1]"
  by (auto simp: binary_path_def list_all_iff)

lemma product_repeat_mem:
  "p \<in> set (product_repeat xs n) \<longleftrightarrow> length p = n \<and> set p \<subseteq> set xs"
  unfolding product_repeat_def
proof (induction n arbitrary: p)
  case 0
  then show ?case by auto
next
  case (Suc n)
  then show ?case by (cases p) auto
qed

lemma candidate_paths: "p \<in> set (product_repeat [0, 1] n) \<longleftrightarrow> length p = n \<and> binary_path p"
  by (simp only: product_repeat_mem binary_path_iff)

lemma product_repeat_nonempty: "product_repeat [0, 1::int] n \<noteq> []"
proof -
  have "replicate n 0 \<in> set (product_repeat [0, 1::int] n)"
    by (auto simp: product_repeat_mem)
  then show ?thesis by auto
qed

lemma count_path_valid:
  assumes "valid_class c" and "length path = length (branches c)" and "binary_path path"
  shows "\<exists>t. count_path c path = Inr t \<and> populated t \<and> nonneg t"
proof -
  let ?t = "\<lambda>k. Some (cnt (count c) k + (\<Sum>i<length path. cnt (branches c ! i ! nat (path ! i)) k))"
  from assms(1) have wf: "well_formed c" and nb: "nonneg (count c)"
    and na: "list_all (list_all nonneg) (branches c)" and bs: "list_all binary_split (branches c)"
    by (simp_all add: valid_class_def well_formed_def)
  have eq: "count_path c path = Inr ?t"
    by (rule count_path_resolved [OF wf assms(2,3)])
  have alt: "0 \<le> cnt (branches c ! i ! nat (path ! i)) k" if "i < length path" for i k
  proof -
    let ?split = "branches c ! i"
    have s: "?split \<in> set (branches c)" using that assms(2) by simp
    then have len: "length ?split = 2" using bs by (auto simp: list_all_iff binary_split_def)
    have "path ! i \<in> set path" using that by simp
    then have "path ! i = 0 \<or> path ! i = 1" using assms(3) by (auto simp: binary_path_def list_all_iff)
    then have "nat (path ! i) < length ?split" using len by auto
    then have "?split ! nat (path ! i) \<in> set ?split" by simp
    then have "nonneg (?split ! nat (path ! i))" using na s by (auto simp: list_all_iff)
    then show ?thesis by (rule nonneg_cnt)
  qed
  have "0 \<le> cnt (count c) k + (\<Sum>i<length path. cnt (branches c ! i ! nat (path ! i)) k)" for k
    using nonneg_cnt [OF nb, of k] alt by (intro add_nonneg_nonneg sum_nonneg) auto
  then have nn: "nonneg ?t" by (auto simp: nonneg_iff)
  have pop: "populated ?t" by (rule populated_sum)
  from eq pop nn show ?thesis by (intro exI [of _ ?t] conjI)
qed

section \<open>Loading the classes\<close>

text \<open>
  Whatever the documents hold, a class that \<open>from_xml\<close> returns carries tallies only:
  every counter starts from \<open>TalentCounter.__init__\<close> and is changed by increments
  alone. The number of alternatives of a branch choice is whatever the document has.
\<close>

lemma branch_counter_tally:
  "branch_counter ss b = Inr b' \<Longrightarrow> tally b \<Longrightarrow> tally b'"
proof (induction ss arbitrary: b)
  case Nil
  then show ?case by simp
next
  case (Cons s ss)
  from Cons.prems(1) obtain st b1 where
    "TalentCounter_add b (AStep st) = Inr b1" "branch_counter ss b1 = Inr b'"
    by (auto split: sum.splits)
  with Cons.IH add_step_tally Cons.prems(2) show ?case by blast
qed

lemma split_branches_tally:
  "split_branches brs split = Inr split' \<Longrightarrow> list_all tally split \<Longrightarrow> list_all tally split'"
proof (induction brs arbitrary: split)
  case Nil
  then show ?case by simp
next
  case (Cons br brs)
  from Cons.prems(1) obtain b where
    b: "branch_counter (children br) TalentCounter_init = Inr b"
    and rest: "split_branches brs (split @ [b]) = Inr split'"
    by (auto split: sum.splits)
  have "tally b" using branch_counter_tally [OF b tally_init] .
  with Cons.prems(2) have "list_all tally (split @ [b])" by simp
  from Cons.IH [OF rest this] show ?case .
qed

lemma from_xml_steps_tallies:
  "from_xml_steps steps talents = Inr c \<Longrightarrow> tallies talents \<Longrightarrow> tallies c \<and> name c = name talents"
proof (induction steps arbitrary: talents)
  case Nil
  then show ?case by simp
next
  case (Cons step steps)
  show ?case
  proof (cases "from_text (tag step)")
    case (Inr st)
    with Cons.prems(1) obtain t' where
      t': "TalentCounter_add (count talents) (AStep st) = Inr t'"
      and rest: "from_xml_steps steps (talents\<lparr>count := t'\<rparr>) = Inr c"
      by (auto split: sum.splits)
    have "tally t'" using add_step_tally [OF t'] Cons.prems(2) by (simp add: tallies_def)
    then have "tallies (talents\<lparr>count := t'\<rparr>)" using Cons.prems(2) by (simp add: tallies_def)
    from Cons.IH [OF rest this] show ?thesis by simp
  next
    case (Inl e)
    show ?thesis
    proof (cases "tag step = ''split''")
      case True
      with Inl Cons.prems(1) obtain split where
        sp: "split_branches (filter (\<lambda>b. tag b = ''branch'') (children step)) [] = Inr split"
        and rest: "from_xml_steps steps (talents\<lparr>branches := branches talents @ [split]\<rparr>) = Inr c"
        by (auto split: sum.splits if_splits)
      have "list_all tally split" using split_branches_tally [OF sp] by simp
      then have "tallies (talents\<lparr>branches := branches talents @ [split]\<rparr>)"
        using Cons.prems(2) by (simp add: tallies_def)
      from Cons.IH [OF rest this] show ?thesis by simp
    next
      case False
      with Inl Cons.prems(1) have "from_xml_steps steps talents = Inr c"
        by (auto split: if_splits)
      from Cons.IH [OF this Cons.prems(2)] show ?thesis .
    qed
  qed
qed

lemma from_xml_tallies: "from_xml x = Inr c \<Longrightarrow> tallies c \<and> name c \<noteq> []"
proof -
  assume a: "from_xml x = Inr c"
  then obtain talents where t: "ClassTalents_init (map_of (attrib x) ''name'') = Inr talents"
    and steps: "from_xml_steps (children x) talents = Inr c"
    by (auto simp: from_xml_def split: sum.splits)
  from t have "tallies talents" "name talents \<noteq> []"
    by (auto simp: ClassTalents_init_def tallies_def tally_init split: option.splits if_splits)
  with from_xml_steps_tallies [OF steps] show ?thesis by simp
qed

lemma read_classes_loaded:
  "read_classes xs classes = Inr classes' \<Longrightarrow> loaded classes \<Longrightarrow> loaded classes'"
proof (induction xs arbitrary: classes)
  case Nil
  then show ?case by simp
next
  case (Cons x xs)
  from Cons.prems(1) obtain c where c: "from_xml x = Inr c"
    and rest: "read_classes xs (AList.update (name c) c classes) = Inr classes'"
    by (auto split: sum.splits)
  have "loaded (AList.update (name c) c classes)"
    using Cons.prems(2) from_xml_tallies [OF c] by (auto simp: loaded_def update_conv')
  from Cons.IH [OF rest this] show ?case .
qed

lemma read_files_loaded:
  "read_files trees classes = Inr classes' \<Longrightarrow> loaded classes \<Longrightarrow> loaded classes'"
proof (induction trees arbitrary: classes)
  case Nil
  then show ?case by simp
next
  case (Cons tree trees)
  from Cons.prems(1) obtain mid where mid: "read classes tree = Inr mid"
    and rest: "read_files trees mid = Inr classes'"
    by (auto split: sum.splits)
  have "loaded mid" using read_classes_loaded mid Cons.prems(2) unfolding read_def by blast
  from Cons.IH [OF rest this] show ?case .
qed

lemma from_files_loaded: "from_files trees = Inr classes \<Longrightarrow> loaded classes"
proof -
  assume "from_files trees = Inr classes"
  then have "read_files trees [] = Inr classes"
    by (auto simp: from_files_def split: sum.splits if_splits)
  moreover have "loaded []" by (simp add: loaded_def)
  ultimately show ?thesis by (rule read_files_loaded)
qed

lemma tallies_valid:
  assumes "tallies c" and "list_all (\<lambda>split. length split = 2) (branches c)"
  shows "valid_class c"
  using assms
  by (auto simp: tallies_def tally_def valid_class_def well_formed_def binary_split_def list_all_iff)

lemma loaded_valid:
  assumes "from_files trees = Inr classes" and "map_of classes n = Some c"
    and "binary_branches c m"
  shows "valid_class c \<and> length (branches c) = m \<and> name c = n"
proof -
  from from_files_loaded [OF assms(1)] assms(2) have "tallies c" "name c = n"
    by (auto simp: loaded_def)
  with assms(3) tallies_valid [of c] show ?thesis by (simp add: binary_branches_def)
qed

lemma make_goals_cls:
  "make_goals classes pairs = Inr goals \<Longrightarrow> \<forall>g\<in>set goals. \<exists>n. map_of classes n = Some (cls g)"
proof (induction pairs arbitrary: goals)
  case Nil
  then show ?case by simp
next
  case (Cons np pairs)
  obtain n p where np: "np = (n, p)" by (cases np)
  from Cons.prems np obtain c ps gs where
    "map_of classes n = Some c" "make_goals classes pairs = Inr gs"
    "goals = \<lparr>cls = c, priorities = ps\<rparr> # gs"
    by (auto split: option.splits sum.splits)
  with Cons.IH [of gs] show ?case by auto
qed

lemma goals_searchable:
  assumes "from_files trees = Inr classes" and "make_goals classes pairs = Inr goals"
    and "list_all (\<lambda>g. binary_branches (cls g) 7) goals"
  shows "searchable goals"
  unfolding searchable_def list_all_iff
proof
  fix g assume g: "g \<in> set goals"
  with make_goals_cls [OF assms(2)] obtain n where n: "map_of classes n = Some (cls g)" by blast
  from g assms(3) have "binary_branches (cls g) 7" by (simp add: list_all_iff)
  from loaded_valid [OF assms(1) n this]
  show "valid_class (cls g) \<and> length (branches (cls g)) = 7" by simp
qed

subsection \<open>The example documents\<close>

lemmas xml_eval =
  from_xml_def ClassTalents_init_def from_text_def Step_values_def iadd_item_def
  TalentCounter_init_apply

lemma from_xml_solo: "from_xml solo_xml = Inr solo"
  by (simp add: solo_xml_def solo_def xml_eval)

lemma from_xml_septet: "from_xml septet_xml = Inr septet"
  by (simp add: septet_xml_def septet_def choice_def xml_eval)

lemma name_septet: "name septet = ''septet''"
  by (simp add: septet_def)

lemma name_solo: "name solo = ''solo''"
  by (simp add: solo_def)

lemma tag_examples: "tag septet_xml = ''class''" "tag solo_xml = ''class''"
  by (simp_all add: septet_xml_def solo_xml_def)

lemma from_files_library: "from_files [library] = Inr [(''septet'', septet), (''solo'', solo)]"
  by (simp add: from_files_def read_def library_def from_xml_solo from_xml_septet
      name_septet name_solo tag_examples)

lemma valid_septet: "valid_class septet"
  by (simp add: valid_class_def well_formed_def septet_def binary_split_def populated_def
      nonneg_def Step_members_def TalentCounter_init_apply)

lemma branches_septet: "length (branches septet) = 7"
  by (simp add: septet_def)

lemma binary_branches_septet: "binary_branches septet 7"
  by (simp add: binary_branches_def septet_def)

section \<open>The table of tallies\<close>

lemma path_counts_ok:
  assumes "\<forall>g\<in>set gs. \<exists>t. count_path (cls g) path = Inr t \<and> P t"
    and "\<forall>nm t. m nm = Some t \<longrightarrow> P t"
  shows "\<exists>m'. path_counts gs path m = Inr m'
           \<and> (\<forall>g\<in>set gs. m' (name (cls g)) \<noteq> None)
           \<and> (\<forall>nm. m nm \<noteq> None \<longrightarrow> m' nm \<noteq> None)
           \<and> (\<forall>nm t. m' nm = Some t \<longrightarrow> P t)"
  using assms
proof (induction gs arbitrary: m)
  case Nil
  then show ?case by simp
next
  case (Cons g gs)
  from Cons.prems(1) obtain t where t: "count_path (cls g) path = Inr t" "P t" by auto
  let ?m = "m(name (cls g) \<mapsto> t)"
  have a: "\<forall>g\<in>set gs. \<exists>t. count_path (cls g) path = Inr t \<and> P t" using Cons.prems(1) by simp
  have b: "\<forall>nm t. ?m nm = Some t \<longrightarrow> P t" using Cons.prems(2) t(2) by auto
  from Cons.IH [OF a b] obtain m' where m': "path_counts gs path ?m = Inr m'"
    "\<forall>g\<in>set gs. m' (name (cls g)) \<noteq> None" "\<forall>nm. ?m nm \<noteq> None \<longrightarrow> m' nm \<noteq> None"
    "\<forall>nm t. m' nm = Some t \<longrightarrow> P t" by blast
  have "path_counts (g # gs) path m = Inr m'" using t(1) m'(1) by simp
  moreover have "\<forall>h\<in>set (g # gs). m' (name (cls h)) \<noteq> None" using m'(2,3) by auto
  moreover have "\<forall>nm. m nm \<noteq> None \<longrightarrow> m' nm \<noteq> None" using m'(3) by auto
  ultimately show ?case using m'(4) by blast
qed

lemma all_counts_ok:
  assumes "\<forall>p\<in>set paths. \<exists>m. path_counts goals p Map.empty = Inr m"
  shows "\<exists>res'. all_counts goals paths res = Inr res'
           \<and> (\<forall>p\<in>set paths. \<exists>m. res' p = Some m \<and> path_counts goals p Map.empty = Inr m)
           \<and> (\<forall>p. p \<notin> set paths \<longrightarrow> res' p = res p)"
  using assms
proof (induction paths arbitrary: res)
  case Nil
  then show ?case by simp
next
  case (Cons path paths)
  from Cons.prems obtain m where m: "path_counts goals path Map.empty = Inr m" by auto
  have a: "\<forall>p\<in>set paths. \<exists>m. path_counts goals p Map.empty = Inr m" using Cons.prems by simp
  from Cons.IH [OF a, of "res(path \<mapsto> m)"] obtain res' where res':
    "all_counts goals paths (res(path \<mapsto> m)) = Inr res'"
    "\<forall>p\<in>set paths. \<exists>m. res' p = Some m \<and> path_counts goals p Map.empty = Inr m"
    "\<forall>p. p \<notin> set paths \<longrightarrow> res' p = (res(path \<mapsto> m)) p" by blast
  have "all_counts goals (path # paths) res = Inr res'" using m res'(1) by simp
  moreover have "\<exists>m. res' path = Some m \<and> path_counts goals path Map.empty = Inr m"
    using res'(2,3) m by (cases "path \<in> set paths") auto
  moreover have "\<forall>p. p \<notin> set (path # paths) \<longrightarrow> res' p = res p" using res'(3) by auto
  ultimately show ?case using res'(2) by auto
qed

lemma readable_value:
  assumes "readable results goals U" and "p \<in> U" and "g \<in> set goals"
  shows "stat_value results p (name (cls g)) k = Inr (value_of results (name (cls g)) k p)
         \<and> 0 \<le> value_of results (name (cls g)) k p"
proof -
  from assms obtain v where "0 \<le> v" "stat_value results p (name (cls g)) k = Inr v"
    unfolding readable_def by blast
  then show ?thesis by (simp add: value_of_def)
qed

lemma all_counts_searchable:
  assumes "searchable goals"
  shows "\<exists>results. all_counts goals (product_repeat [0, 1] 7) Map.empty = Inr results
           \<and> readable results goals (set (product_repeat [0, 1] 7))
           \<and> (\<forall>p\<in>set (product_repeat [0, 1] 7). \<exists>m. results p = Some m
                 \<and> path_counts goals p Map.empty = Inr m
                 \<and> (\<forall>g\<in>set goals. m (name (cls g)) \<noteq> None))"
proof -
  let ?paths = "product_repeat [0, 1::int] 7"
  let ?P = "\<lambda>t. populated t \<and> nonneg t"
  have cp: "\<exists>t. count_path (cls g) p = Inr t \<and> ?P t" if "p \<in> set ?paths" "g \<in> set goals" for p g
  proof -
    from that(2) assms have "valid_class (cls g)" "length (branches (cls g)) = 7"
      by (auto simp: searchable_def list_all_iff)
    moreover from that(1) have "length p = 7" "binary_path p" by (simp_all add: candidate_paths)
    ultimately show ?thesis by (intro count_path_valid) simp_all
  qed
  have pc: "\<exists>m. path_counts goals p Map.empty = Inr m \<and> (\<forall>g\<in>set goals. m (name (cls g)) \<noteq> None)
              \<and> (\<forall>nm t. m nm = Some t \<longrightarrow> ?P t)" if "p \<in> set ?paths" for p
  proof -
    have a: "\<forall>g\<in>set goals. \<exists>t. count_path (cls g) p = Inr t \<and> ?P t" using cp that by blast
    have b: "\<forall>nm t. Map.empty nm = Some t \<longrightarrow> ?P t" by simp
    from path_counts_ok [of goals p ?P Map.empty, OF a b] show ?thesis by blast
  qed
  then have "\<forall>p\<in>set ?paths. \<exists>m. path_counts goals p Map.empty = Inr m" by blast
  from all_counts_ok [OF this, of Map.empty] obtain results where r:
    "all_counts goals ?paths Map.empty = Inr results"
    "\<forall>p\<in>set ?paths. \<exists>m. results p = Some m \<and> path_counts goals p Map.empty = Inr m" by blast
  have tab: "\<exists>m. results p = Some m \<and> path_counts goals p Map.empty = Inr m
               \<and> (\<forall>g\<in>set goals. m (name (cls g)) \<noteq> None)
               \<and> (\<forall>nm t. m nm = Some t \<longrightarrow> ?P t)" if "p \<in> set ?paths" for p
  proof -
    from r(2) that obtain m where m: "results p = Some m" "path_counts goals p Map.empty = Inr m"
      by blast
    from pc [OF that] m(2) have "(\<forall>g\<in>set goals. m (name (cls g)) \<noteq> None)
              \<and> (\<forall>nm t. m nm = Some t \<longrightarrow> ?P t)" by auto
    with m show ?thesis by blast
  qed
  have "readable results goals (set ?paths)"
    unfolding readable_def
  proof (intro ballI allI)
    fix p g k
    assume p: "p \<in> set ?paths" and g: "g \<in> set goals"
    from tab [OF p] obtain m where m: "results p = Some m"
      "\<forall>g\<in>set goals. m (name (cls g)) \<noteq> None" "\<forall>nm t. m nm = Some t \<longrightarrow> ?P t" by blast
    from m(2) g obtain t where t: "m (name (cls g)) = Some t" by auto
    with m(3) have pt: "populated t" and nt: "nonneg t" by auto
    from pt obtain v where v: "t k = Some v" unfolding populated_iff by blast
    with nt have "0 \<le> v" unfolding nonneg_iff by blast
    with v m(1) t show "\<exists>v\<ge>0. stat_value results p (name (cls g)) k = Inr v"
      by (simp add: stat_value_def)
  qed
  with r(1) tab show ?thesis by blast
qed

lemma report_goals_ok:
  assumes "\<forall>g\<in>set gs. m (name (cls g)) \<noteq> None"
  shows "report_goals m gs = Inr (map (\<lambda>g. (name (cls g), the (m (name (cls g))))) gs)"
  using assms by (induction gs) auto

lemma report_ok:
  assumes "\<forall>p\<in>set ps. \<exists>m. results p = Some m \<and> (\<forall>g\<in>set goals. m (name (cls g)) \<noteq> None)"
  shows "report results goals ps =
           Inr (map (\<lambda>p. (p, map (\<lambda>g. (name (cls g), the (the (results p) (name (cls g))))) goals)) ps)"
  using assms
proof (induction ps)
  case Nil
  then show ?case by simp
next
  case (Cons p ps)
  from Cons.prems obtain m where m: "results p = Some m" "\<forall>g\<in>set goals. m (name (cls g)) \<noteq> None"
    by auto
  from Cons.IH Cons.prems have IH: "report results goals ps =
           Inr (map (\<lambda>p. (p, map (\<lambda>g. (name (cls g), the (the (results p) (name (cls g))))) goals)) ps)"
    by simp
  show ?case using m(1) report_goals_ok [OF m(2)] IH by simp
qed

lemma main_unfold:
  assumes "from_files files = Inr classes"
    and "make_goals classes (zip (islice2 goal) (islice2 (drop 1 goal))) = Inr goals"
    and "all_counts goals (product_repeat [0, 1] 7) Map.empty = Inr results"
  shows "main files goal =
           (case eliminate results goals (product_repeat [0, 1] 7) of
              Inl e \<Rightarrow> Inl e
            | Inr best_paths \<Rightarrow> report results goals best_paths)"
  using assms by (simp add: main_def)

text \<open>
  The search width is fixed at 7: when the entity of the first goal has another number
  of branches, the first tally that \<open>main\<close> asks for already raises ValueError.
\<close>

lemma main_branch_count:
  assumes "from_files files = Inr classes"
    and "make_goals classes (zip (islice2 goal) (islice2 (drop 1 goal))) = Inr (g # gs)"
    and "length (branches (cls g)) \<noteq> 7"
  shows "main files goal = Inl ValueError"
proof -
  obtain p ps where paths: "product_repeat [0, 1::int] 7 = p # ps"
    using product_repeat_nonempty [of 7] by (cases "product_repeat [0, 1::int] 7") auto
  then have "p \<in> set (product_repeat [0, 1] 7)" by simp
  then have "length p = 7" by (simp add: candidate_paths)
  then have "count_path (cls g) p = Inl ValueError"
    using assms(3) by (simp add: count_path_def)
  then have "all_counts (g # gs) (product_repeat [0, 1] 7) Map.empty = Inl ValueError"
    by (simp add: paths)
  then show ?thesis using assms(1,2) by (simp add: main_def)
qed

section \<open>The elimination rounds\<close>

lemma scan_paths_values:
  "scan_paths results nm prio ps acc cur = Inr out \<Longrightarrow>
     \<forall>p\<in>set ps. \<exists>v. stat_value results p nm prio = Inr v"
  by (induction ps arbitrary: acc cur) (auto split: sum.splits if_splits)

lemma scan_paths_eq:
  assumes "\<forall>p\<in>set ps. stat_value results p nm prio = Inr (v p)"
  shows "scan_paths results nm prio ps acc cur =
           Inr (if \<exists>p\<in>set ps. cur < v p then filter (\<lambda>p. \<forall>q\<in>set ps. v q \<le> v p) ps
                else acc @ filter (\<lambda>p. v p = cur) ps)"
  using assms
proof (induction ps arbitrary: acc cur)
  case Nil
  then show ?case by simp
next
  case (Cons p ps)
  have vp: "stat_value results p nm prio = Inr (v p)"
    and rest: "\<forall>q\<in>set ps. stat_value results q nm prio = Inr (v q)"
    using Cons.prems by simp_all
  note IH = Cons.IH [OF rest]
  consider (gt) "cur < v p" | (eq) "v p = cur" | (lt) "v p < cur" by linarith
  then show ?case
  proof cases
    case gt
    show ?thesis
    proof (cases "\<exists>q\<in>set ps. v p < v q")
      case True
      then obtain q where q: "q \<in> set ps" "v p < v q" by blast
      have "filter (\<lambda>r. \<forall>q\<in>set ps. v q \<le> v r) ps = filter (\<lambda>r. \<forall>q\<in>set (p # ps). v q \<le> v r) ps"
        using q by (intro filter_cong) force+
      moreover have "\<exists>q\<in>set ps. \<not> v q \<le> v p" using q by force
      ultimately show ?thesis using gt True vp by (simp add: IH)
    next
      case False
      have "filter (\<lambda>r. v r = v p) ps = filter (\<lambda>r. \<forall>q\<in>set (p # ps). v q \<le> v r) ps"
        using False by (intro filter_cong) force+
      moreover have "\<forall>q\<in>set ps. v q \<le> v p" using False by force
      ultimately show ?thesis using gt False vp by (simp add: IH)
    qed
  next
    case eq
    show ?thesis
    proof (cases "\<exists>q\<in>set ps. cur < v q")
      case True
      then obtain q where q: "q \<in> set ps" "cur < v q" by blast
      have "filter (\<lambda>r. \<forall>q\<in>set ps. v q \<le> v r) ps = filter (\<lambda>r. \<forall>q\<in>set (p # ps). v q \<le> v r) ps"
        using q eq by (intro filter_cong) force+
      moreover have "\<exists>q\<in>set ps. \<not> v q \<le> v p" using q eq by force
      ultimately show ?thesis using eq True vp by (simp add: IH)
    next
      case False
      then show ?thesis using eq vp by (simp add: IH)
    qed
  next
    case lt
    show ?thesis
    proof (cases "\<exists>q\<in>set ps. cur < v q")
      case True
      then obtain q where q: "q \<in> set ps" "cur < v q" by blast
      have "filter (\<lambda>r. \<forall>q\<in>set ps. v q \<le> v r) ps = filter (\<lambda>r. \<forall>q\<in>set (p # ps). v q \<le> v r) ps"
        using q lt by (intro filter_cong) force+
      moreover have "\<exists>q\<in>set ps. \<not> v q \<le> v p" using q lt by force
      ultimately show ?thesis using lt True vp by (simp add: IH)
    next
      case False
      then show ?thesis using lt vp by (simp add: IH)
    qed
  qed
qed

lemma scan_paths_start:
  assumes "scan_paths results nm prio ps [] 0 = Inr out"
  shows "out = (if \<exists>p\<in>set ps. 0 < value_of results nm prio p
                then filter (\<lambda>p. \<forall>q\<in>set ps. value_of results nm prio q \<le> value_of results nm prio p) ps
                else filter (\<lambda>p. value_of results nm prio p = 0) ps)"
proof -
  have "\<forall>p\<in>set ps. stat_value results p nm prio = Inr (value_of results nm prio p)"
    using scan_paths_values [OF assms] by (auto simp: value_of_def)
  from scan_paths_eq [OF this, of "[]" 0] assms show ?thesis by simp
qed

lemma ex_maximal:
  fixes f :: "'a \<Rightarrow> int"
  assumes "ps \<noteq> []"
  shows "\<exists>p\<in>set ps. \<forall>q\<in>set ps. f q \<le> f p"
proof -
  have fin: "finite (f ` set ps)" and ne: "f ` set ps \<noteq> {}" using assms by simp_all
  from Max_in [OF fin ne] obtain p where p: "p \<in> set ps" "f p = Max (f ` set ps)" by auto
  have "f q \<le> f p" if "q \<in> set ps" for q
    using Max_ge [OF fin, of "f q"] that p(2) by simp
  with p(1) show ?thesis by blast
qed

lemma scan_paths_nonneg:
  assumes "\<forall>p\<in>set ps. stat_value results p nm prio = Inr (v p) \<and> 0 \<le> v p"
  shows "scan_paths results nm prio ps [] 0 = Inr (filter (\<lambda>p. \<forall>q\<in>set ps. v q \<le> v p) ps)"
proof -
  have vals: "\<forall>p\<in>set ps. stat_value results p nm prio = Inr (v p)" using assms by simp
  show ?thesis
  proof (cases "\<exists>p\<in>set ps. 0 < v p")
    case True
    then show ?thesis using scan_paths_eq [OF vals, of "[]" 0] by simp
  next
    case False
    then have z: "\<forall>p\<in>set ps. v p = 0" using assms by force
    then have "filter (\<lambda>p. v p = 0) ps = filter (\<lambda>p. \<forall>q\<in>set ps. v q \<le> v p) ps"
      by (intro filter_cong) auto
    then show ?thesis using scan_paths_eq [OF vals, of "[]" 0] False by simp
  qed
qed

lemma scan_paths_survivors:
  assumes "\<forall>p\<in>set ps. stat_value results p nm prio = Inr (v p) \<and> 0 \<le> v p" and "ps \<noteq> []"
  shows "\<exists>out. scan_paths results nm prio ps [] 0 = Inr out \<and> out \<noteq> [] \<and> set out \<subseteq> set ps"
proof -
  let ?out = "filter (\<lambda>p. \<forall>q\<in>set ps. v q \<le> v p) ps"
  from ex_maximal [OF assms(2), of v] have "?out \<noteq> []"
    by (auto simp: filter_empty_conv)
  with scan_paths_nonneg [OF assms(1)] show ?thesis by auto
qed

subsection \<open>Running the filter again\<close>

lemma uniform_subset: "uniform results nm prio ps \<Longrightarrow> set ps' \<subseteq> set ps \<Longrightarrow> uniform results nm prio ps'"
  unfolding uniform_def by (meson subsetD)

lemma scan_paths_uniform_id:
  assumes "uniform results nm prio ps"
  shows "scan_paths results nm prio ps [] 0 = Inr ps"
proof -
  from assms obtain m where m: "0 \<le> m" "\<forall>p\<in>set ps. stat_value results p nm prio = Inr m"
    by (auto simp: uniform_def)
  have "filter (\<lambda>p. m = 0) ps = ps" if "\<not> 0 < m"
    using that m(1) by simp
  then show ?thesis
    using scan_paths_eq [of ps results nm prio "\<lambda>_. m" "[]" 0] m by auto
qed

lemma scan_paths_out:
  assumes "scan_paths results nm prio ps [] 0 = Inr out"
  shows "uniform results nm prio out \<and> set out \<subseteq> set ps"
proof -
  let ?v = "value_of results nm prio"
  have vals: "\<forall>p\<in>set ps. stat_value results p nm prio = Inr (?v p)"
    using scan_paths_values [OF assms] by (auto simp: value_of_def)
  note out = scan_paths_start [OF assms]
  have sub: "set out \<subseteq> set ps" using out by (auto split: if_splits)
  show ?thesis
  proof (cases "\<exists>p\<in>set ps. 0 < ?v p")
    case True
    then obtain p0 where p0: "p0 \<in> set ps" "0 < ?v p0" by blast
    have mx: "\<forall>p\<in>set out. \<forall>q\<in>set ps. ?v q \<le> ?v p"
      using out True by auto
    show ?thesis
    proof (cases out)
      case Nil
      then show ?thesis using sub by (auto simp: uniform_def)
    next
      case (Cons a as)
      then have a: "a \<in> set out" by simp
      have "?v p = ?v a" if "p \<in> set out" for p
        using mx that a sub by (meson antisym subsetD)
      moreover have "0 \<le> ?v a" using mx a p0 by force
      ultimately have "uniform results nm prio out"
        unfolding uniform_def using vals sub by (intro exI [of _ "?v a"]) auto
      then show ?thesis using sub by simp
    qed
  next
    case False
    then have "\<forall>p\<in>set out. ?v p = 0" using out by auto
    then have "uniform results nm prio out"
      unfolding uniform_def using vals sub by (intro exI [of _ 0]) auto
    then show ?thesis using sub by simp
  qed
qed

lemma goals_round_out:
  assumes "goals_round results idx gs ps = Inr ps'"
  shows "set ps' \<subseteq> set ps \<and> settled results idx gs ps'"
  using assms
proof (induction gs arbitrary: ps)
  case Nil
  then show ?case by (simp add: settled_def)
next
  case (Cons g gs)
  show ?case
  proof (cases "length (priorities g) \<le> idx")
    case True
    with Cons.prems have "goals_round results idx gs ps = Inr ps'" by simp
    from Cons.IH [OF this] True show ?thesis by (simp add: settled_def)
  next
    case False
    with Cons.prems obtain new where
      new: "scan_paths results (name (cls g)) (priorities g ! idx) ps [] 0 = Inr new"
      and rest: "goals_round results idx gs new = Inr ps'"
      by (auto split: sum.splits)
    from scan_paths_out [OF new] have u: "uniform results (name (cls g)) (priorities g ! idx) new"
      and s1: "set new \<subseteq> set ps" by simp_all
    from Cons.IH [OF rest] have s2: "set ps' \<subseteq> set new" and st: "settled results idx gs ps'"
      by simp_all
    from uniform_subset [OF u s2] st s1 s2 show ?thesis
      by (auto simp: settled_def)
  qed
qed

lemma goals_round_settled_id:
  assumes "settled results idx gs ps"
  shows "goals_round results idx gs ps = Inr ps"
  using assms
proof (induction gs)
  case Nil
  then show ?case by simp
next
  case (Cons g gs)
  then have IH: "goals_round results idx gs ps = Inr ps" by (simp add: settled_def)
  show ?case
  proof (cases "length (priorities g) \<le> idx")
    case True
    then show ?thesis using IH by simp
  next
    case False
    then have "uniform results (name (cls g)) (priorities g ! idx) ps"
      using Cons.prems by (simp add: settled_def)
    from scan_paths_uniform_id [OF this] False IH show ?thesis by simp
  qed
qed

lemma settled_subset: "settled results idx gs ps \<Longrightarrow> set ps' \<subseteq> set ps \<Longrightarrow> settled results idx gs ps'"
  unfolding settled_def by (blast intro: uniform_subset)

lemma priority_rounds_out:
  assumes "priority_rounds results goals idxs ps = Inr ps'"
  shows "set ps' \<subseteq> set ps \<and> (\<forall>idx\<in>set idxs. settled results idx goals ps')"
  using assms
proof (induction idxs arbitrary: ps)
  case Nil
  then show ?case by simp
next
  case (Cons idx idxs)
  from Cons.prems obtain mid where
    mid: "goals_round results idx goals ps = Inr mid"
    and rest: "priority_rounds results goals idxs mid = Inr ps'"
    by (auto split: sum.splits)
  from goals_round_out [OF mid] have s1: "set mid \<subseteq> set ps" and st: "settled results idx goals mid"
    by simp_all
  from Cons.IH [OF rest] have s2: "set ps' \<subseteq> set mid"
    and sts: "\<forall>i\<in>set idxs. settled results i goals ps'" by simp_all
  from settled_subset [OF st s2] sts s1 s2 show ?case by auto
qed

lemma priority_rounds_settled_id:
  assumes "\<forall>idx\<in>set idxs. settled results idx goals ps"
  shows "priority_rounds results goals idxs ps = Inr ps"
  using assms by (induction idxs) (simp_all add: goals_round_settled_id)

text \<open>
  C7. If the elimination filter, run with some goals and tallies on a list of paths,
  returns a list of survivors, then running it again with the same goals and tallies on
  those survivors returns the same list.
\<close>

theorem eliminate_idempotent:
  assumes "eliminate results goals best_paths = Inr survivors"
  shows "eliminate results goals survivors = Inr survivors"
proof -
  let ?idxs = "[0 ..< Max (set (map (\<lambda>g. length (priorities g)) goals))]"
  from assms have ne: "goals \<noteq> []"
    and run: "priority_rounds results goals ?idxs best_paths = Inr survivors"
    by (auto simp: eliminate_def split: if_splits)
  from priority_rounds_out [OF run] have "\<forall>idx\<in>set ?idxs. settled results idx goals survivors"
    by simp
  from priority_rounds_settled_id [OF this] ne show ?thesis
    by (simp add: eliminate_def)
qed

theorem eliminate_idempotent_witness:
  "\<exists>results. all_counts [\<lparr>cls = solo, priorities = [ATTACK]\<rparr>] (product_repeat [0, 1] 1) Map.empty = Inr results
     \<and> eliminate results [\<lparr>cls = solo, priorities = [ATTACK]\<rparr>] (product_repeat [0, 1] 1) = Inr [[0]]
     \<and> eliminate results [\<lparr>cls = solo, priorities = [ATTACK]\<rparr>] [[0]] = Inr [[0]]"
proof -
  let ?g = "\<lparr>cls = solo, priorities = [ATTACK]\<rparr>"
  have "\<exists>results. all_counts [?g] (product_repeat [0, 1] 1) Map.empty = Inr results
     \<and> eliminate results [?g] (product_repeat [0, 1] 1) = Inr [[0]]"
    by (simp add: product_repeat_def solo_def count_path_def items_def Step_members_def
        TalentCounter_init_apply iadd_item_def getitem_def eliminate_def stat_value_def)
  then obtain results where
    a: "all_counts [?g] (product_repeat [0, 1] 1) Map.empty = Inr results"
    and b: "eliminate results [?g] (product_repeat [0, 1] 1) = Inr [[0]]"
    by blast
  from eliminate_idempotent [OF b] a b show ?thesis by blast
qed

subsection \<open>Some path always survives\<close>

lemma goals_round_survivors:
  assumes "readable results goals U" and "set gs \<subseteq> set goals" and "set ps \<subseteq> U" and "ps \<noteq> []"
  shows "\<exists>ps'. goals_round results idx gs ps = Inr ps' \<and> ps' \<noteq> [] \<and> set ps' \<subseteq> set ps"
  using assms(2-)
proof (induction gs arbitrary: ps)
  case Nil
  then show ?case by simp
next
  case (Cons g gs)
  have gs: "set gs \<subseteq> set goals" and g: "g \<in> set goals" using Cons.prems(1) by simp_all
  show ?case
  proof (cases "length (priorities g) \<le> idx")
    case True
    with Cons.IH [OF gs Cons.prems(2,3)] show ?thesis by simp
  next
    case False
    let ?nm = "name (cls g)" and ?k = "priorities g ! idx"
    have "\<forall>p\<in>set ps. stat_value results p ?nm ?k = Inr (value_of results ?nm ?k p)
            \<and> 0 \<le> value_of results ?nm ?k p"
      using readable_value [OF assms(1) _ g] Cons.prems(2) by blast
    from scan_paths_survivors [OF this Cons.prems(3)] obtain new where
      new: "scan_paths results ?nm ?k ps [] 0 = Inr new" "new \<noteq> []" "set new \<subseteq> set ps" by blast
    have "set new \<subseteq> U" using new(3) Cons.prems(2) by blast
    from Cons.IH [OF gs this new(2)] obtain ps' where
      "goals_round results idx gs new = Inr ps'" "ps' \<noteq> []" "set ps' \<subseteq> set new" by blast
    with new False show ?thesis by auto
  qed
qed

lemma priority_rounds_survivors:
  assumes "readable results goals U" and "set ps \<subseteq> U" and "ps \<noteq> []"
  shows "\<exists>ps'. priority_rounds results goals idxs ps = Inr ps' \<and> ps' \<noteq> [] \<and> set ps' \<subseteq> set ps"
  using assms(2-)
proof (induction idxs arbitrary: ps)
  case Nil
  then show ?case by simp
next
  case (Cons idx idxs)
  from goals_round_survivors [OF assms(1) subset_refl Cons.prems] obtain mid where
    mid: "goals_round results idx goals ps = Inr mid" "mid \<noteq> []" "set mid \<subseteq> set ps" by blast
  have "set mid \<subseteq> U" using mid(3) Cons.prems(1) by blast
  from Cons.IH [OF this mid(2)] obtain ps' where
    "priority_rounds results goals idxs mid = Inr ps'" "ps' \<noteq> []" "set ps' \<subseteq> set mid" by blast
  with mid show ?case by auto
qed

lemma eliminate_survivors:
  assumes "readable results goals U" and "set ps \<subseteq> U" and "ps \<noteq> []" and "goals \<noteq> []"
  shows "\<exists>ps'. eliminate results goals ps = Inr ps' \<and> ps' \<noteq> [] \<and> set ps' \<subseteq> set ps"
  using priority_rounds_survivors [OF assms(1-3)] assms(4) by (simp add: eliminate_def)

lemma searchable_keeps_a_path:
  assumes "from_files files = Inr classes"
    and "make_goals classes (zip (islice2 goal) (islice2 (drop 1 goal))) = Inr goals"
    and "goals \<noteq> []" and "searchable goals"
  shows "\<exists>results out. all_counts goals (product_repeat [0, 1] 7) Map.empty = Inr results
           \<and> (\<forall>idx ps. ps \<noteq> [] \<and> set ps \<subseteq> set (product_repeat [0, 1] 7) \<longrightarrow>
                 (\<exists>ps'. goals_round results idx goals ps = Inr ps' \<and> ps' \<noteq> [] \<and> set ps' \<subseteq> set ps))
           \<and> main files goal = Inr out \<and> out \<noteq> []"
proof -
  let ?paths = "product_repeat [0, 1::int] 7"
  from all_counts_searchable [OF assms(4)] obtain results where
    res: "all_counts goals ?paths Map.empty = Inr results"
    and rd: "readable results goals (set ?paths)"
    and tab: "\<forall>p\<in>set ?paths. \<exists>m. results p = Some m \<and> path_counts goals p Map.empty = Inr m
                 \<and> (\<forall>g\<in>set goals. m (name (cls g)) \<noteq> None)"
    by blast
  have rounds: "\<forall>idx ps. ps \<noteq> [] \<and> set ps \<subseteq> set ?paths \<longrightarrow>
                 (\<exists>ps'. goals_round results idx goals ps = Inr ps' \<and> ps' \<noteq> [] \<and> set ps' \<subseteq> set ps)"
    using goals_round_survivors [OF rd subset_refl] by blast
  from eliminate_survivors [OF rd subset_refl product_repeat_nonempty assms(3)] obtain best where
    best: "eliminate results goals ?paths = Inr best" "best \<noteq> []" "set best \<subseteq> set ?paths"
    by blast
  have "\<forall>p\<in>set best. \<exists>m. results p = Some m \<and> (\<forall>g\<in>set goals. m (name (cls g)) \<noteq> None)"
    using tab best(3) by blast
  from report_ok [OF this] obtain out where
    out: "report results goals best = Inr out" "map fst out = best"
    by (simp add: comp_def)
  have "main files goal = Inr out"
    using main_unfold [OF assms(1,2) res] best(1) out(1) by simp
  moreover have "out \<noteq> []" using out(2) best(2) by auto
  ultimately show ?thesis using res rounds by blast
qed

text \<open>
  C10. When the class files load, the goals parse to a non-empty goal list, and every
  goal's entity has 7 binary branches, then the tallies of all candidate paths are
  computed without error; each elimination round (the loop over the goals at one
  priority index) maps every non-empty list of candidate paths to a non-empty list
  whose paths all come from the input; and \<open>main\<close> returns at least one path.
\<close>

theorem evaluator_keeps_a_path:
  assumes "from_files files = Inr classes"
    and "make_goals classes (zip (islice2 goal) (islice2 (drop 1 goal))) = Inr goals"
    and "goals \<noteq> []" and "list_all (\<lambda>g. binary_branches (cls g) 7) goals"
  shows "\<exists>results out. all_counts goals (product_repeat [0, 1] 7) Map.empty = Inr results
           \<and> (\<forall>idx ps. ps \<noteq> [] \<and> set ps \<subseteq> set (product_repeat [0, 1] 7) \<longrightarrow>
                 (\<exists>ps'. goals_round results idx goals ps = Inr ps' \<and> ps' \<noteq> [] \<and> set ps' \<subseteq> set ps))
           \<and> main files goal = Inr out \<and> out \<noteq> []"
  by (rule searchable_keeps_a_path [OF assms(1-3) goals_searchable [OF assms(1,2,4)]])

theorem evaluator_keeps_a_path_witness:
  "from_files [library] = Inr [(''septet'', septet), (''solo'', solo)]
   \<and> make_goals [(''septet'', septet), (''solo'', solo)]
        (zip (islice2 [''septet'', ''am'', ''septet'', ''h''])
             (islice2 (drop 1 [''septet'', ''am'', ''septet'', ''h''])))
      = Inr [\<lparr>cls = septet, priorities = [ATTACK, MANA]\<rparr>, \<lparr>cls = septet, priorities = [HEALTH]\<rparr>]
   \<and> [\<lparr>cls = septet, priorities = [ATTACK, MANA]\<rparr>, \<lparr>cls = septet, priorities = [HEALTH]\<rparr>] \<noteq> []
   \<and> list_all (\<lambda>g. binary_branches (cls g) 7)
        [\<lparr>cls = septet, priorities = [ATTACK, MANA]\<rparr>, \<lparr>cls = septet, priorities = [HEALTH]\<rparr>]
   \<and> (\<exists>out. main [library] [''septet'', ''am'', ''septet'', ''h''] = Inr out \<and> out \<noteq> [])"
proof -
  let ?goals = "[\<lparr>cls = septet, priorities = [ATTACK, MANA]\<rparr>, \<lparr>cls = septet, priorities = [HEALTH]\<rparr>]"
  have h2: "make_goals [(''septet'', septet), (''solo'', solo)]
        (zip (islice2 [''septet'', ''am'', ''septet'', ''h''])
             (islice2 (drop 1 [''septet'', ''am'', ''septet'', ''h''])))
      = Inr ?goals"
    by (simp add: step_map_def)
  have h3: "?goals \<noteq> []" by simp
  have h4: "list_all (\<lambda>g. binary_branches (cls g) 7) ?goals"
    by (simp add: binary_branches_septet)
  from evaluator_keeps_a_path [OF from_files_library h2 h3 h4]
  have "\<exists>out. main [library] [''septet'', ''am'', ''septet'', ''h''] = Inr out \<and> out \<noteq> []"
    by blast
  with from_files_library h2 h3 h4 show ?thesis by blast
qed

subsection \<open>One goal with one priority\<close>

lemma valid_single_priority:
  assumes "from_files files = Inr classes" and "map_of classes n = Some c"
    and "step_map ch = Some k" and "valid_class c" and "length (branches c) = 7"
  shows "\<exists>out. main files [n, [ch]] = Inr out
           \<and> set (map fst out) =
               {p. length p = 7 \<and> binary_path p
                   \<and> (\<forall>q. length q = 7 \<and> binary_path q \<longrightarrow> cnt (resolved c q) k \<le> cnt (resolved c p) k)}
           \<and> map snd out = map (\<lambda>p. [(name c, resolved c p)]) (map fst out)"
proof -
  let ?paths = "product_repeat [0, 1::int] 7"
  let ?g = "\<lparr>cls = c, priorities = [k]\<rparr>"
  let ?v = "\<lambda>p. cnt (resolved c p) k"
  have goals: "make_goals classes (zip (islice2 [n, [ch]]) (islice2 (drop 1 [n, [ch]]))) = Inr [?g]"
    using assms(2,3) by simp
  have srch: "searchable [?g]" using assms(4,5) by (simp add: searchable_def)
  from all_counts_searchable [OF srch] obtain results where
    res: "all_counts [?g] ?paths Map.empty = Inr results"
    and rd: "readable results [?g] (set ?paths)"
    and tab: "\<forall>p\<in>set ?paths. \<exists>m. results p = Some m \<and> path_counts [?g] p Map.empty = Inr m
                 \<and> (\<forall>g\<in>set [?g]. m (name (cls g)) \<noteq> None)"
    by blast
  have entry: "results p = Some [name c \<mapsto> resolved c p]" if "p \<in> set ?paths" for p
  proof -
    from tab that obtain m where m: "results p = Some m" "path_counts [?g] p Map.empty = Inr m"
      by blast
    from m(2) show ?thesis using m(1) by (auto simp: resolved_def split: sum.splits)
  qed
  have val: "stat_value results p (name c) k = Inr (?v p) \<and> 0 \<le> ?v p" if "p \<in> set ?paths" for p
  proof -
    from readable_value [OF rd that, of ?g k] 
    have a: "stat_value results p (name c) k = Inr (value_of results (name c) k p)"
      and b: "0 \<le> value_of results (name c) k p" by simp_all
    from a entry [OF that] have "value_of results (name c) k p = ?v p"
      by (auto simp: stat_value_def cnt_def split: option.splits)
    with a b show ?thesis by simp
  qed
  let ?best = "filter (\<lambda>p. \<forall>q\<in>set ?paths. ?v q \<le> ?v p) ?paths"
  have scan: "scan_paths results (name c) k ?paths [] 0 = Inr ?best"
    by (rule scan_paths_nonneg) (use val in blast)
  have elim: "eliminate results [?g] ?paths = Inr ?best"
    using scan by (simp add: eliminate_def)
  have "\<forall>p\<in>set ?best. \<exists>m. results p = Some m \<and> (\<forall>g\<in>set [?g]. m (name (cls g)) \<noteq> None)"
    using entry by auto
  from report_ok [OF this]
  have rep: "report results [?g] ?best = Inr (map (\<lambda>p. (p, [(name c, the (the (results p) (name c)))])) ?best)"
    by simp
  let ?out = "map (\<lambda>p. (p, [(name c, resolved c p)])) ?best"
  have "map (\<lambda>p. (p, [(name c, the (the (results p) (name c)))])) ?best = ?out"
    by (rule map_cong) (auto simp: entry)
  with rep have rep': "report results [?g] ?best = Inr ?out" by simp
  have m: "main files [n, [ch]] = Inr ?out"
    using main_unfold [OF assms(1) goals res] elim rep' by simp
  have fst_out: "map fst ?out = ?best" by (simp add: comp_def)
  have "set ?best = {p. length p = 7 \<and> binary_path p
                   \<and> (\<forall>q. length q = 7 \<and> binary_path q \<longrightarrow> ?v q \<le> ?v p)}"
    by (auto simp: candidate_paths)
  moreover have "map snd ?out = map (\<lambda>p. [(name c, resolved c p)]) (map fst ?out)"
    by (simp add: comp_def)
  ultimately show ?thesis using m fst_out by (intro exI [of _ ?out]) simp
qed

text \<open>
  C1. For a single goal whose priority string is one known code, over a loaded entity
  with 7 binary branches, the paths that \<open>main\<close> reports are exactly the binary paths of
  length 7 whose resolved tally holds the greatest count of that stat among all binary
  paths of length 7; each reported row carries the resolved tally of its path.
\<close>

theorem single_priority_survivors:
  assumes "from_files files = Inr classes" and "map_of classes n = Some c"
    and "step_map ch = Some k" and "binary_branches c 7"
  shows "\<exists>out. main files [n, [ch]] = Inr out
           \<and> set (map fst out) =
               {p. length p = 7 \<and> binary_path p
                   \<and> (\<forall>q. length q = 7 \<and> binary_path q \<longrightarrow> cnt (resolved c q) k \<le> cnt (resolved c p) k)}
           \<and> map snd out = map (\<lambda>p. [(name c, resolved c p)]) (map fst out)"
proof -
  from loaded_valid [OF assms(1,2,4)] have "valid_class c" "length (branches c) = 7"
    by simp_all
  from valid_single_priority [OF assms(1-3) this] show ?thesis .
qed

theorem single_priority_survivors_witness:
  "from_files [library] = Inr [(''septet'', septet), (''solo'', solo)]
   \<and> map_of [(''septet'', septet), (''solo'', solo)] ''septet'' = Some septet
   \<and> step_map CHR ''a'' = Some ATTACK
   \<and> binary_branches septet 7
   \<and> (\<exists>out. main [library] [''septet'', ''a''] = Inr out
         \<and> set (map fst out) =
               {p. length p = 7 \<and> binary_path p
                   \<and> (\<forall>q. length q = 7 \<and> binary_path q \<longrightarrow>
                          cnt (resolved septet q) ATTACK \<le> cnt (resolved septet p) ATTACK)})"
proof -
  have h2: "map_of [(''septet'', septet), (''solo'', solo)] ''septet'' = Some septet" by simp
  have h3: "step_map CHR ''a'' = Some ATTACK" by (simp add: step_map_def)
  from single_priority_survivors [OF from_files_library h2 h3 binary_branches_septet]
  have "\<exists>out. main [library] [''septet'', ''a''] = Inr out
         \<and> set (map fst out) =
               {p. length p = 7 \<and> binary_path p
                   \<and> (\<forall>q. length q = 7 \<and> binary_path q \<longrightarrow>
                          cnt (resolved septet q) ATTACK \<le> cnt (resolved septet p) ATTACK)}"
    by blast
  with from_files_library h2 h3 binary_branches_septet show ?thesis by blast
qed

section \<open>Unknown names and priority codes\<close>

lemma parse_priorities_error: "parse_priorities p = Inl e \<Longrightarrow> e = KeyError"
  by (induction p arbitrary: e) (auto split: option.splits sum.splits)

lemma parse_priorities_unknown:
  "\<exists>ch\<in>set p. step_map ch = None \<Longrightarrow> parse_priorities p = Inl KeyError"
proof (induction p)
  case Nil
  then show ?case by simp
next
  case (Cons a p)
  then show ?case
    by (cases "parse_priorities p") (auto split: option.splits dest: parse_priorities_error)
qed

lemma make_goals_error: "make_goals classes pairs = Inl e \<Longrightarrow> e = KeyError"
proof (induction pairs arbitrary: e)
  case Nil
  then show ?case by simp
next
  case (Cons np pairs)
  obtain n p where "np = (n, p)" by (cases np)
  with Cons show ?case
    by (auto split: option.splits sum.splits dest: parse_priorities_error)
qed

lemma make_goals_unknown:
  assumes "\<exists>(n, p)\<in>set pairs. map_of classes n = None \<or> (\<exists>ch\<in>set p. step_map ch = None)"
  shows "make_goals classes pairs = Inl KeyError"
  using assms
proof (induction pairs)
  case Nil
  then show ?case by simp
next
  case (Cons np pairs)
  obtain n p where np: "np = (n, p)" by (cases np)
  show ?case
  proof (cases "map_of classes n = None \<or> (\<exists>ch\<in>set p. step_map ch = None)")
    case True
    show ?thesis
    proof (cases "map_of classes n")
      case None
      then show ?thesis using np by simp
    next
      case (Some c)
      with True have "\<exists>ch\<in>set p. step_map ch = None" by simp
      from parse_priorities_unknown [OF this] Some np show ?thesis by simp
    qed
  next
    case False
    with Cons.prems np have "\<exists>(n, p)\<in>set pairs. map_of classes n = None \<or> (\<exists>ch\<in>set p. step_map ch = None)"
      by auto
    from Cons.IH [OF this] show ?thesis
      using np by (auto split: option.splits sum.splits dest: parse_priorities_error)
  qed
qed

text \<open>
  C8, amended. When some goal names a class that was not loaded, or its priority string
  contains a character that is not a key of \<open>step_map\<close>, \<open>main\<close> fails with Python's
  KeyError, the exception of a failed dict lookup, in both cases.
\<close>

theorem unknown_goal_raises_KeyError:
  assumes "from_files files = Inr classes"
    and "\<exists>(n, p)\<in>set (zip (islice2 goal) (islice2 (drop 1 goal))).
           map_of classes n = None \<or> (\<exists>ch\<in>set p. step_map ch = None)"
  shows "main files goal = Inl KeyError"
  using assms(1) make_goals_unknown [OF assms(2)] by (simp add: main_def)

theorem unknown_goal_raises_KeyError_witness:
  "from_files [library] = Inr [(''septet'', septet), (''solo'', solo)]
   \<and> step_map CHR ''z'' = None
   \<and> main [library] [''solo'', ''az''] = Inl KeyError"
proof -
  have z: "step_map CHR ''z'' = None" by (simp add: step_map_def)
  have "\<exists>(n, p)\<in>set (zip (islice2 [''solo'', ''az'']) (islice2 (drop 1 [''solo'', ''az'']))).
           map_of [(''septet'', septet), (''solo'', solo)] n = None \<or> (\<exists>ch\<in>set p. step_map ch = None)"
    using z by simp
  from unknown_goal_raises_KeyError [OF from_files_library this] from_files_library z
  show ?thesis by blast
qed

text \<open>
  C8, as the specification states it, names two distinct error types. The code defines
  neither: an unknown priority code and an unknown class name both surface as KeyError.
\<close>

theorem unknown_goal_error_counterexample:
  "main [library] [''solo'', ''z''] = Inl KeyError \<and> main [library] [''nobody'', ''a''] = Inl KeyError"
  by (simp add: main_def from_files_library step_map_def)

section \<open>The leveling simulator\<close>

subsection \<open>The ceiling of a quotient\<close>





subsection \<open>One step of a run\<close>



subsection \<open>Every run ends\<close>






subsection \<open>A success chance of 100\<close>






end
